theory Spec2Isabelle
  imports Main
begin

section \<open>Strings, identifiers and errors\<close>

text \<open>
  JavaScript strings are modelled by \<^typ>\<open>string\<close>; a \<^typ>\<open>char\<close> stands for one code
  unit below 256. The class \<^verbatim>\<open>\s\<close> of the regular expression in \<^verbatim>\<open>_keyCheck\<close>,
  restricted to that range, is tab, line feed, vertical tab, form feed, carriage return,
  space and the no-break space.
\<close>

definition PFX_TAG :: string where
  "PFX_TAG = ''com.github.superguineapig''"

definition is_space :: "char \<Rightarrow> bool" where
  "is_space c = (c \<in> {CHR 0x09, CHR 0x0A, CHR 0x0B, CHR 0x0C, CHR 0x0D, CHR 0x20, CHR 0xA0})"

definition keyCheck :: "string \<Rightarrow> bool" where
  \<comment> \<open>\<^verbatim>\<open>Boolean(id) && typeof id === 'string' && !/\s/.test(id)\<close>\<close>
  "keyCheck tid = (tid \<noteq> [] \<and> \<not> list_ex is_space tid)"

definition getInternalId :: "string \<Rightarrow> string" where
  "getInternalId tid = PFX_TAG @ ''+'' @ tid"

text \<open>
  The source raises plain \<^verbatim>\<open>Error\<close> objects that differ by their message; there is one
  constructor for each message, carrying the interpolated identifier. A rejection that
  comes from the keychain module is wrapped in \<open>ProviderError\<close>.
\<close>

datatype error =
    KeyEmptyOrWhitespace          \<comment> \<open>'key cannot be empty nor contain whitespace'\<close>
  | IdMustBeNonEmptyString        \<comment> \<open>'id must be non-empty string'\<close>
  | KeysAlreadyDisposed string    \<comment> \<open>'keys already disposed for id: ...'\<close>
  | BackingMapMissing string      \<comment> \<open>'backing map for ... does not exist/may have been disposed'\<close>
  | KeyNotInMap string            \<comment> \<open>'key: ... does not exist in map'\<close>
  | KeyAlreadyInMap string        \<comment> \<open>'key: ... already in map'\<close>
  | ProviderError string

text \<open>The error kinds by which the specification classifies these messages.\<close>

datatype kind = InvalidArgument | Disposed | NotFound | AlreadyExists | ProviderFailure

fun kind_of :: "error \<Rightarrow> kind" where
  "kind_of KeyEmptyOrWhitespace = InvalidArgument"
| "kind_of IdMustBeNonEmptyString = InvalidArgument"
| "kind_of (KeysAlreadyDisposed t) = NotFound"
| "kind_of (BackingMapMissing t) = Disposed"
| "kind_of (KeyNotInMap k) = NotFound"
| "kind_of (KeyAlreadyInMap k) = AlreadyExists"
| "kind_of (ProviderError m) = ProviderFailure"

section \<open>The keychain module and the process state\<close>

text \<open>
  \<^verbatim>\<open>RSAKeychain\<close> of \<^verbatim>\<open>react-native-rsa-native\<close> is not part of the repository. It is a
  parameter of every operation: five functions on a keychain state \<open>'k\<close>, each returning
  how its promise settles (\<open>Inl\<close> the rejection reason, \<open>Inr\<close> the resolved value) and the
  keychain afterwards. \<open>getPublicKey\<close> may resolve with \<^verbatim>\<open>null\<close>, which is \<open>None\<close>; the
  value \<open>generate\<close> and \<open>deletePrivateKey\<close> resolve with is never read.
\<close>

record 'k provider =
  generate :: "string \<Rightarrow> 'k \<Rightarrow> (string + unit) \<times> 'k"
  getPublicKey :: "string \<Rightarrow> 'k \<Rightarrow> (string + string option) \<times> 'k"
  encrypt :: "string \<Rightarrow> string \<Rightarrow> 'k \<Rightarrow> (string + string) \<times> 'k"
  decrypt :: "string \<Rightarrow> string \<Rightarrow> 'k \<Rightarrow> (string + string) \<times> 'k"
  deletePrivateKey :: "string \<Rightarrow> 'k \<Rightarrow> (string + unit) \<times> 'k"

datatype call =
    Generate string
  | GetPublicKey string
  | Encrypt string string
  | Decrypt string string
  | DeletePrivateKey string

text \<open>
  The state of the process: the module variable \<^verbatim>\<open>_staticTagMap\<close> (an immutable map of
  immutable maps), the device keychain, and the list of calls made to the keychain module
  so far (oldest first).
\<close>

type_synonym registry = "string \<rightharpoonup> (string \<rightharpoonup> string)"

record 'k world =
  staticTagMap :: registry
  keychain :: 'k
  calls :: "call list"

subsection \<open>Nested access of the immutable map\<close>

definition hasIn :: "string \<Rightarrow> string \<Rightarrow> registry \<Rightarrow> bool" where
  "hasIn t k m = (case m t of None \<Rightarrow> False | Some c \<Rightarrow> c k \<noteq> None)"

definition getIn :: "string \<Rightarrow> string \<Rightarrow> string \<Rightarrow> registry \<Rightarrow> string" where
  \<comment> \<open>\<^verbatim>\<open>getIn([t, k], notSet)\<close>\<close>
  "getIn t k notSet m =
     (case m t of None \<Rightarrow> notSet
      | Some c \<Rightarrow> (case c k of None \<Rightarrow> notSet | Some v \<Rightarrow> v))"

definition setIn :: "string \<Rightarrow> string \<Rightarrow> string \<Rightarrow> registry \<Rightarrow> registry" where
  \<comment> \<open>\<^verbatim>\<open>setIn([t, k], v)\<close> creates the inner map when \<open>t\<close> is absent\<close>
  "setIn t k v m = m(t \<mapsto> (case m t of None \<Rightarrow> Map.empty | Some c \<Rightarrow> c)(k \<mapsto> v))"

definition deleteIn :: "string \<Rightarrow> string \<Rightarrow> registry \<Rightarrow> registry" where
  \<comment> \<open>\<^verbatim>\<open>deleteIn([t, k])\<close> leaves the map alone when \<open>t\<close> is absent\<close>
  "deleteIn t k m = (case m t of None \<Rightarrow> m | Some c \<Rightarrow> m(t \<mapsto> c(k := None)))"

section \<open>Promises\<close>

text \<open>
  A promise is run from a state of the process and settles: \<open>outcome\<close> is the rejection
  (\<open>Inl\<close>) or the resolved value (\<open>Inr\<close>), \<open>after\<close> the state when it settles, and
  \<open>between\<close> the states at which the chain was suspended on the way, one for every
  \<^verbatim>\<open>.then\<close> callback that ran: the state in which the promise before it had resolved and
  the callback had not run yet. Other code of the process can run at exactly these
  states. A synchronous \<^verbatim>\<open>throw\<close> of an operation that returns a promise is modelled as
  a rejection in the unchanged state.
\<close>

record ('a, 'k) settled =
  outcome :: "error + 'a"
  after :: "'k world"
  between :: "'k world list"

type_synonym ('a, 'k) promise = "'k world \<Rightarrow> ('a, 'k) settled"

definition resolve :: "'a \<Rightarrow> ('a, 'k) promise" where
  "resolve v w = \<lparr>outcome = Inr v, after = w, between = []\<rparr>"

definition reject :: "error \<Rightarrow> ('a, 'k) promise" where
  "reject e w = \<lparr>outcome = Inl e, after = w, between = []\<rparr>"

definition then_p :: "('a, 'k) promise \<Rightarrow> ('a \<Rightarrow> ('b, 'k) promise) \<Rightarrow> ('b, 'k) promise" where
  "then_p p f w =
     (let s = p w in
      case outcome s of
        Inl e \<Rightarrow> \<lparr>outcome = Inl e, after = after s, between = between s\<rparr>
      | Inr a \<Rightarrow>
          (let s' = f a (after s) in
           \<lparr>outcome = outcome s', after = after s',
            between = between s @ after s # between s'\<rparr>))"

definition catch_p :: "('a, 'k) promise \<Rightarrow> (error \<Rightarrow> ('a, 'k) promise) \<Rightarrow> ('a, 'k) promise" where
  "catch_p p g w =
     (let s = p w in
      case outcome s of
        Inr a \<Rightarrow> s
      | Inl e \<Rightarrow>
          (let s' = g e (after s) in
           \<lparr>outcome = outcome s', after = after s',
            between = between s @ after s # between s'\<rparr>))"

text \<open>A call into the keychain module: it is logged, and the keychain takes its effect.\<close>

definition native :: "call \<Rightarrow> ('k \<Rightarrow> (string + 'a) \<times> 'k) \<Rightarrow> ('a, 'k) promise" where
  "native c f w =
     (case f (keychain w) of
        (r, k') \<Rightarrow>
          \<lparr>outcome = (case r of Inl m \<Rightarrow> Inl (ProviderError m) | Inr v \<Rightarrow> Inr v),
           after = w\<lparr>keychain := k', calls := calls w @ [c]\<rparr>,
           between = []\<rparr>)"

definition RSAKeychain_generate :: "'k provider \<Rightarrow> string \<Rightarrow> (unit, 'k) promise" where
  "RSAKeychain_generate P h = native (Generate h) (generate P h)"

definition RSAKeychain_getPublicKey :: "'k provider \<Rightarrow> string \<Rightarrow> (string option, 'k) promise" where
  "RSAKeychain_getPublicKey P h = native (GetPublicKey h) (getPublicKey P h)"

definition RSAKeychain_encrypt :: "'k provider \<Rightarrow> string \<Rightarrow> string \<Rightarrow> (string, 'k) promise" where
  "RSAKeychain_encrypt P v h = native (Encrypt v h) (encrypt P v h)"

definition RSAKeychain_decrypt :: "'k provider \<Rightarrow> string \<Rightarrow> string \<Rightarrow> (string, 'k) promise" where
  "RSAKeychain_decrypt P c h = native (Decrypt c h) (decrypt P c h)"

definition RSAKeychain_deletePrivateKey :: "'k provider \<Rightarrow> string \<Rightarrow> (unit, 'k) promise" where
  "RSAKeychain_deletePrivateKey P h = native (DeletePrivateKey h) (deletePrivateKey P h)"

section \<open>The factory functions of secureMap.js\<close>

record SecureMap =
  tag :: string
  fullTag :: string

definition new_SecureMap :: "string \<Rightarrow> SecureMap" where
  "new_SecureMap tid = \<lparr>tag = tid, fullTag = getInternalId tid\<rparr>"

definition isIdInDeviceKeychain :: "'k provider \<Rightarrow> string \<Rightarrow> (bool, 'k) promise" where
  "isIdInDeviceKeychain P tid =
     then_p (RSAKeychain_getPublicKey P (getInternalId tid))
       (\<lambda>pub. resolve (pub \<noteq> None))"

definition disposeKeysForId :: "'k provider \<Rightarrow> string \<Rightarrow> (unit, 'k) promise" where
  "disposeKeysForId P tid =
     (if \<not> keyCheck tid then reject KeyEmptyOrWhitespace
      else
        then_p
          (then_p (isIdInDeviceKeychain P tid)
             (\<lambda>exists.
                if \<not> exists then reject (KeysAlreadyDisposed tid)
                else RSAKeychain_deletePrivateKey P (getInternalId tid)))
          (\<lambda>_ w.
             resolve ()
               (if staticTagMap w tid \<noteq> None
                then w\<lparr>staticTagMap := (staticTagMap w)(tid := None)\<rparr>
                else w)))"

definition getMapForId :: "'k provider \<Rightarrow> string \<Rightarrow> (SecureMap, 'k) promise" where
  "getMapForId P tid =
     then_p
       (then_p
          (then_p
             (then_p
                (then_p (resolve (keyCheck tid))
                   (\<lambda>keyOk.
                      if keyOk then isIdInDeviceKeychain P tid
                      else reject IdMustBeNonEmptyString))
                (\<lambda>hasKeys.
                   if \<not> hasKeys then RSAKeychain_generate P (getInternalId tid)
                   else resolve ()))
             (\<lambda>_ w. resolve (staticTagMap w tid \<noteq> None) w))
          (\<lambda>hasMap w.
             resolve True
               (if \<not> hasMap
                then w\<lparr>staticTagMap := (staticTagMap w)(tid \<mapsto> Map.empty)\<rparr>
                else w)))
       (\<lambda>_. resolve (new_SecureMap tid))"

section \<open>The methods of a secure map\<close>

text \<open>
  A secure map is its two private fields. \<open>empty\<close> and \<open>hasItem\<close> are synchronous:
  they return at once, with the exception they throw as \<open>Inl\<close>. The parameter
  \<open>remove\<close> of \<open>retrieveItem\<close>, \<^verbatim>\<open>true\<close> when the caller leaves it out, is always
  given here. The \<^verbatim>\<open>size\<close> getter is left out: no statement below is about it.
\<close>

definition empty_map :: "SecureMap \<Rightarrow> 'k world \<Rightarrow> (error + SecureMap) \<times> 'k world" where
  "empty_map sm w =
     (case staticTagMap w (tag sm) of
        None \<Rightarrow> (Inl (BackingMapMissing (tag sm)), w)
      | Some tgt \<Rightarrow> (Inr sm, w\<lparr>staticTagMap := (staticTagMap w)(tag sm \<mapsto> Map.empty)\<rparr>))"

definition hasItem :: "SecureMap \<Rightarrow> string \<Rightarrow> 'k world \<Rightarrow> error + bool" where
  "hasItem sm key w =
     (if staticTagMap w (tag sm) = None then Inl (BackingMapMissing (tag sm))
      else Inr (hasIn (tag sm) key (staticTagMap w)))"

definition retrieveItem :: "'k provider \<Rightarrow> SecureMap \<Rightarrow> string \<Rightarrow> bool \<Rightarrow> (string, 'k) promise" where
  "retrieveItem P sm key remove w =
     (if \<not> keyCheck key then reject KeyEmptyOrWhitespace w
      else if staticTagMap w (tag sm) = None then reject (BackingMapMissing (tag sm)) w
      else if \<not> hasIn (tag sm) key (staticTagMap w) then reject (KeyNotInMap key) w
      else
        then_p
          (RSAKeychain_decrypt P (getIn (tag sm) key '''' (staticTagMap w)) (fullTag sm))
          (\<lambda>decVal w'.
             resolve decVal
               (if remove
                then w'\<lparr>staticTagMap := deleteIn (tag sm) key (staticTagMap w')\<rparr>
                else w'))
          w)"

definition storeItem :: "'k provider \<Rightarrow> SecureMap \<Rightarrow> string \<Rightarrow> string \<Rightarrow> (SecureMap, 'k) promise" where
  "storeItem P sm key val w =
     (if \<not> keyCheck key then reject KeyEmptyOrWhitespace w
      else if staticTagMap w (tag sm) = None then reject (BackingMapMissing (tag sm)) w
      else if hasIn (tag sm) key (staticTagMap w) then reject (KeyAlreadyInMap key) w
      else
        then_p (RSAKeychain_encrypt P val (fullTag sm))
          (\<lambda>encVal w'.
             resolve sm (w'\<lparr>staticTagMap := setIn (tag sm) key encVal (staticTagMap w')\<rparr>))
          w)"

section \<open>The locker\<close>

text \<open>
  A locker is an object with the mutable private field \<^verbatim>\<open>#evicted\<close>; an operation that
  may write the field resolves with the locker as it is afterwards. \<^verbatim>\<open>generateKeyString\<close>,
  \<^verbatim>\<open>acquire\<close> and the locker's \<^verbatim>\<open>storeItem\<close> draw random numbers or read the clock;
  they are left out, no statement below being about them.
\<close>

record VarLocker =
  evicted :: bool
  store :: SecureMap

definition new_VarLocker :: "SecureMap \<Rightarrow> VarLocker" where
  "new_VarLocker sm = \<lparr>evicted = False, store = sm\<rparr>"

definition locker_id :: "VarLocker \<Rightarrow> string" where
  "locker_id L = tag (store L)"

definition isEvicted :: "'k provider \<Rightarrow> VarLocker \<Rightarrow> (bool \<times> VarLocker, 'k) promise" where
  "isEvicted P L =
     (if \<not> evicted L then
        catch_p
          (then_p (isIdInDeviceKeychain P (locker_id L))
             (\<lambda>b. if \<not> b then resolve (True, L\<lparr>evicted := True\<rparr>) else resolve (False, L)))
          (\<lambda>_. resolve (True, L\<lparr>evicted := True\<rparr>))
      else resolve (evicted L, L))"

definition evict :: "'k provider \<Rightarrow> VarLocker \<Rightarrow> (VarLocker, 'k) promise" where
  "evict P L =
     then_p (disposeKeysForId P (locker_id L))
       (\<lambda>_. resolve (L\<lparr>evicted := True\<rparr>))"

definition keyInUse :: "VarLocker \<Rightarrow> string \<Rightarrow> 'k world \<Rightarrow> error + bool" where
  "keyInUse L key w = hasItem (store L) key w"

definition locker_retrieveItem :: "'k provider \<Rightarrow> VarLocker \<Rightarrow> string \<Rightarrow> (string, 'k) promise" where
  "locker_retrieveItem P L key = retrieveItem P (store L) key True"

section \<open>What the operations are measured against\<close>

text \<open>An operation fails with a given kind of error.\<close>

definition fails_with :: "('a, 'k) settled \<Rightarrow> kind \<Rightarrow> bool" where
  "fails_with s knd = (case outcome s of Inl e \<Rightarrow> kind_of e = knd | Inr v \<Rightarrow> False)"

text \<open>
  Every key of every entry collection passed \<open>keyCheck\<close>. The registry starts empty and
  \<open>storeItem\<close>, the only operation that adds a key, checks it first, so this holds in
  every state the operations reach (lemmas \<open>keys_valid_*\<close> below).
\<close>

definition keys_valid :: "registry \<Rightarrow> bool" where
  "keys_valid m = (\<forall>t c k. m t = Some c \<longrightarrow> c k \<noteq> None \<longrightarrow> keyCheck k)"

subsection \<open>The contract of the keychain module\<close>

text \<open>
  The keychain module is a parameter, so what the operations rely on is stated about it.
  A keypair is live under a handle when the existence query, asked in that keychain
  state, resolves with a public key.
\<close>

definition live :: "'k provider \<Rightarrow> string \<Rightarrow> 'k \<Rightarrow> bool" where
  "live P h k = (case fst (getPublicKey P h k) of Inr (Some pub) \<Rightarrow> True | _ \<Rightarrow> False)"

text \<open>
  In keychain state \<open>k\<close>, encrypting \<open>v\<close> under handle \<open>h\<close> resolves, and decrypting the
  ciphertext in the keychain state that encryption leaves resolves with \<open>v\<close>.
\<close>

definition decrypt_inverts_encrypt :: "'k provider \<Rightarrow> string \<Rightarrow> string \<Rightarrow> 'k \<Rightarrow> bool" where
  "decrypt_inverts_encrypt P h v k =
     (case encrypt P v h k of
        (Inl m, k') \<Rightarrow> False
      | (Inr c, k') \<Rightarrow> fst (decrypt P c h k') = Inr v)"

text \<open>Once a deletion has resolved, the existence query for that handle resolves with \<^verbatim>\<open>null\<close>.\<close>

definition deleted_key_is_gone :: "'k provider \<Rightarrow> bool" where
  "deleted_key_is_gone P =
     (\<forall>h k k'. deletePrivateKey P h k = (Inr (), k')
        \<longrightarrow> fst (getPublicKey P h k') = Inr None)"

text \<open>A call of the module whose effect on the keychain removes no live keypair.\<close>

definition keeps_keys :: "'k provider \<Rightarrow> ('k \<Rightarrow> 'r \<times> 'k) \<Rightarrow> bool" where
  "keeps_keys P f = (\<forall>h k. live P h k \<longrightarrow> live P h (snd (f k)))"

definition queries_keep_keys :: "'k provider \<Rightarrow> bool" where
  "queries_keep_keys P = (\<forall>h. keeps_keys P (getPublicKey P h))"

definition generate_makes_live :: "'k provider \<Rightarrow> bool" where
  "generate_makes_live P =
     (\<forall>h k. fst (generate P h k) = Inr () \<longrightarrow> live P h (snd (generate P h k)))"

text \<open>
  The whole contract: only \<open>deletePrivateKey\<close> removes a keypair, only the one it is
  asked to, and not when it rejects; a generation that resolves leaves a live keypair.
\<close>

definition honours_contract :: "'k provider \<Rightarrow> bool" where
  "honours_contract P =
     (queries_keep_keys P
    \<and> generate_makes_live P
    \<and> (\<forall>h. keeps_keys P (generate P h))
    \<and> (\<forall>v h. keeps_keys P (encrypt P v h))
    \<and> (\<forall>c h. keeps_keys P (decrypt P c h))
    \<and> (\<forall>h h' k. h' \<noteq> h \<longrightarrow> live P h' k \<longrightarrow> live P h' (snd (deletePrivateKey P h k)))
    \<and> (\<forall>h k m. fst (deletePrivateKey P h k) = Inl m \<longrightarrow> live P h k
          \<longrightarrow> live P h (snd (deletePrivateKey P h k))))"

text \<open>Every tag that is a key of the registry has a live keypair under its derived handle.\<close>

definition registry_backed :: "'k provider \<Rightarrow> 'k world \<Rightarrow> bool" where
  "registry_backed P w =
     (\<forall>t. staticTagMap w t \<noteq> None \<longrightarrow> live P (getInternalId t) (keychain w))"

subsection \<open>An in-memory keychain\<close>

text \<open>
  Modelled from the spec: the keychain module \<^verbatim>\<open>RSAKeychain\<close> of
  \<^verbatim>\<open>react-native-rsa-native\<close> is missing from the repository; this is an instance of the
  contract the specification gives for it, used to run the operations on concrete
  inputs. The keychain is the set of handles that have a keypair. The calls named in
  \<open>broken\<close> reject and leave the keychain alone; \<open>encrypt\<close>, \<open>decrypt\<close> and
  \<open>deletePrivateKey\<close> reject when the handle has no keypair. Encryption reverses the
  text, and so does decryption.
\<close>

datatype opkind = OpGenerate | OpGetPublicKey | OpEncrypt | OpDecrypt | OpDelete

definition mem_provider :: "opkind set \<Rightarrow> (string set) provider" where
  "mem_provider broken =
     \<lparr>generate = (\<lambda>h k. if OpGenerate \<in> broken then (Inl ''generate failed'', k)
                          else (Inr (), insert h k)),
      getPublicKey = (\<lambda>h k. if OpGetPublicKey \<in> broken then (Inl ''getPublicKey failed'', k)
                          else (Inr (if h \<in> k then Some (''pub:'' @ h) else None), k)),
      encrypt = (\<lambda>v h k. if OpEncrypt \<in> broken \<or> h \<notin> k then (Inl ''encrypt failed'', k)
                          else (Inr (rev v), k)),
      decrypt = (\<lambda>c h k. if OpDecrypt \<in> broken \<or> h \<notin> k then (Inl ''decrypt failed'', k)
                          else (Inr (rev c), k)),
      deletePrivateKey = (\<lambda>h k. if OpDelete \<in> broken \<or> h \<notin> k then (Inl ''delete failed'', k)
                          else (Inr (), k - {h}))\<rparr>"

text \<open>The process at start, and a process with two stores holding one item each.\<close>

definition world0 :: "(string set) world" where
  "world0 = \<lparr>staticTagMap = Map.empty, keychain = {}, calls = []\<rparr>"

definition world1 :: "(string set) world" where
  "world1 = \<lparr>staticTagMap = [''locker'' \<mapsto> [''abcdef'' \<mapsto> ''terces''],
                              ''other'' \<mapsto> [''qrstuv'' \<mapsto> ''nepo'']],
              keychain = {getInternalId ''locker'', getInternalId ''other''}, calls = []\<rparr>"

section \<open>Unfolding the operations\<close>

lemmas promise_defs = then_p_def catch_p_def resolve_def reject_def native_def Let_def
  RSAKeychain_getPublicKey_def RSAKeychain_generate_def RSAKeychain_encrypt_def
  RSAKeychain_decrypt_def RSAKeychain_deletePrivateKey_def

lemmas chain_defs = isIdInDeviceKeychain_def promise_defs

lemmas conc_defs = mem_provider_def world0_def world1_def
  keyCheck_def is_space_def getInternalId_def PFX_TAG_def new_SecureMap_def
  hasIn_def getIn_def setIn_def deleteIn_def

lemmas eval_defs = storeItem_def retrieveItem_def disposeKeysForId_def getMapForId_def
  isIdInDeviceKeychain_def evict_def isEvicted_def empty_map_def hasItem_def
  locker_id_def new_VarLocker_def fails_with_def live_def decrypt_inverts_encrypt_def
  promise_defs conc_defs

subsection \<open>The outcomes of the existence query and of a call that resolves with nothing\<close>

lemma query_cases:
  obtains (failed) m k1 where "getPublicKey P h k = (Inl m, k1)"
  | (absent) k1 where "getPublicKey P h k = (Inr None, k1)"
  | (present) pub k1 where "getPublicKey P h k = (Inr (Some pub), k1)"
proof (cases "getPublicKey P h k")
  case (Pair r k1)
  then show ?thesis
    by (cases r; cases "projr r") (auto intro: failed absent present)
qed

lemma unit_result_cases:
  obtains (failed) m k' where "(x :: (string + unit) \<times> 'k) = (Inl m, k')"
  | (resolved) k' where "x = (Inr (), k')"
proof (cases x)
  case (Pair r k')
  then show ?thesis by (cases r) (auto intro: failed resolved)
qed

lemma live_query:
  "live P h k \<longleftrightarrow> (\<exists>pub k1. getPublicKey P h k = (Inr (Some pub), k1))"
  by (cases "getPublicKey P h k") (auto simp: live_def split: sum.splits option.splits)

lemma isIdInDeviceKeychain_live:
  "outcome (isIdInDeviceKeychain P tid w) = Inr True
     \<longleftrightarrow> live P (getInternalId tid) (keychain w)"
  by (auto simp: chain_defs live_def split: sum.splits prod.splits option.splits)

lemma getInternalId_inject: "getInternalId s = getInternalId t \<longleftrightarrow> s = t"
  by (simp add: getInternalId_def)

subsection \<open>The runs of \<open>getMapForId\<close>\<close>

lemma getMapForId_invalid:
  assumes "\<not> keyCheck tid"
  shows "getMapForId P tid w
    = \<lparr>outcome = Inl IdMustBeNonEmptyString, after = w, between = [w]\<rparr>"
  using assms by (simp add: getMapForId_def chain_defs)

lemma getMapForId_query_failed:
  assumes "keyCheck tid"
    and "getPublicKey P (getInternalId tid) (keychain w) = (Inl m, k1)"
  shows "getMapForId P tid w
    = \<lparr>outcome = Inl (ProviderError m),
       after = w\<lparr>keychain := k1, calls := calls w @ [GetPublicKey (getInternalId tid)]\<rparr>,
       between = [w]\<rparr>"
  using assms by (simp add: getMapForId_def chain_defs)

lemma getMapForId_has_keys:
  assumes "keyCheck tid"
    and "getPublicKey P (getInternalId tid) (keychain w) = (Inr (Some pub), k1)"
    and "w1 = w\<lparr>keychain := k1, calls := calls w @ [GetPublicKey (getInternalId tid)]\<rparr>"
    and "w3 = (if staticTagMap w tid = None
               then w1\<lparr>staticTagMap := (staticTagMap w)(tid \<mapsto> Map.empty)\<rparr> else w1)"
  shows "getMapForId P tid w
    = \<lparr>outcome = Inr (new_SecureMap tid), after = w3, between = [w, w1, w1, w1, w1, w3]\<rparr>"
  using assms by (simp add: getMapForId_def chain_defs)

lemma getMapForId_generate_failed:
  assumes "keyCheck tid"
    and "getPublicKey P (getInternalId tid) (keychain w) = (Inr None, k1)"
    and "generate P (getInternalId tid) k1 = (Inl m, k2)"
    and "w1 = w\<lparr>keychain := k1, calls := calls w @ [GetPublicKey (getInternalId tid)]\<rparr>"
  shows "getMapForId P tid w
    = \<lparr>outcome = Inl (ProviderError m),
       after = w\<lparr>keychain := k2,
                 calls := calls w @ [GetPublicKey (getInternalId tid), Generate (getInternalId tid)]\<rparr>,
       between = [w, w1, w1]\<rparr>"
  using assms by (simp add: getMapForId_def chain_defs)

lemma getMapForId_generated:
  assumes "keyCheck tid"
    and "getPublicKey P (getInternalId tid) (keychain w) = (Inr None, k1)"
    and "generate P (getInternalId tid) k1 = (Inr (), k2)"
    and "w1 = w\<lparr>keychain := k1, calls := calls w @ [GetPublicKey (getInternalId tid)]\<rparr>"
    and "w2 = w\<lparr>keychain := k2,
                 calls := calls w @ [GetPublicKey (getInternalId tid), Generate (getInternalId tid)]\<rparr>"
    and "w3 = (if staticTagMap w tid = None
               then w2\<lparr>staticTagMap := (staticTagMap w)(tid \<mapsto> Map.empty)\<rparr> else w2)"
  shows "getMapForId P tid w
    = \<lparr>outcome = Inr (new_SecureMap tid), after = w3, between = [w, w1, w1, w2, w2, w3]\<rparr>"
  using assms by (simp add: getMapForId_def chain_defs)

subsection \<open>The runs of \<open>disposeKeysForId\<close> and of \<open>evict\<close>\<close>

lemma disposeKeysForId_resolved:
  assumes "outcome (disposeKeysForId P tid w) = Inr u"
  shows "keyCheck tid \<and> (\<exists>pub k1 k2.
      getPublicKey P (getInternalId tid) (keychain w) = (Inr (Some pub), k1)
    \<and> deletePrivateKey P (getInternalId tid) k1 = (Inr (), k2)
    \<and> keychain (after (disposeKeysForId P tid w)) = k2)"
  using assms
  by (auto simp: disposeKeysForId_def chain_defs split: sum.splits prod.splits if_splits)

lemma disposeKeysForId_absent:
  assumes "keyCheck tid"
    and "fst (getPublicKey P (getInternalId tid) (keychain w)) = Inr None"
  shows "outcome (disposeKeysForId P tid w) = Inl (KeysAlreadyDisposed tid)"
  using assms
  by (auto simp: disposeKeysForId_def chain_defs split: sum.splits prod.splits)

lemma evict_settled:
  "outcome (evict P L w)
     = (case outcome (disposeKeysForId P (locker_id L) w) of
          Inl e \<Rightarrow> Inl e | Inr u \<Rightarrow> Inr (L\<lparr>evicted := True\<rparr>))"
  "after (evict P L w) = after (disposeKeysForId P (locker_id L) w)"
  by (simp_all add: evict_def then_p_def resolve_def Let_def split: sum.splits)

subsection \<open>Facts about the in-memory keychain and the sample states\<close>

lemma keyCheck_samples:
  "keyCheck ''abcdef''" "keyCheck ''locker''" "keyCheck ''qrstuv''" "keyCheck ''other''"
  "keyCheck ''ghijkl''" "keyCheck ''zzzzzz''" "\<not> keyCheck ''''" "\<not> keyCheck ''a b''"
  by (simp_all add: keyCheck_def is_space_def)

lemma keys_valid_world1: "keys_valid (staticTagMap world1)"
  unfolding keys_valid_def world1_def
  by (auto simp: keyCheck_samples split: if_splits)

lemma deleted_key_is_gone_mem: "deleted_key_is_gone (mem_provider {})"
  by (auto simp: deleted_key_is_gone_def mem_provider_def split: if_splits)

subsection \<open>Stored keys are valid\<close>

lemma keys_valid_empty: "keys_valid Map.empty"
  by (simp add: keys_valid_def)

lemma keys_valid_changes:
  assumes "keys_valid m"
  shows "keys_valid (m(t := None))" and "keys_valid (m(t \<mapsto> Map.empty))"
    and "keyCheck k \<Longrightarrow> keys_valid (setIn t k v m)" and "keys_valid (deleteIn t k m)"
  using assms
  by (auto simp: keys_valid_def setIn_def deleteIn_def split: if_splits option.splits)

lemma keys_valid_getMapForId:
  assumes "keys_valid (staticTagMap w)"
  shows "keys_valid (staticTagMap (after (getMapForId P tid w)))"
proof -
  have "staticTagMap (after (getMapForId P tid w)) = staticTagMap w
    \<or> staticTagMap (after (getMapForId P tid w)) = (staticTagMap w)(tid \<mapsto> Map.empty)"
    by (simp add: getMapForId_def chain_defs split: sum.splits prod.splits)
  with assms show ?thesis by (auto simp: keys_valid_changes)
qed

lemma keys_valid_disposeKeysForId:
  assumes "keys_valid (staticTagMap w)"
  shows "keys_valid (staticTagMap (after (disposeKeysForId P tid w)))"
proof -
  have "staticTagMap (after (disposeKeysForId P tid w)) = staticTagMap w
    \<or> staticTagMap (after (disposeKeysForId P tid w)) = (staticTagMap w)(tid := None)"
    by (simp add: disposeKeysForId_def chain_defs split: sum.splits prod.splits)
  with assms show ?thesis by (auto simp: keys_valid_changes)
qed

lemma keys_valid_storeItem:
  assumes "keys_valid (staticTagMap w)"
  shows "keys_valid (staticTagMap (after (storeItem P sm key val w)))"
proof -
  have "staticTagMap (after (storeItem P sm key val w)) = staticTagMap w
    \<or> (keyCheck key \<and> (\<exists>c. staticTagMap (after (storeItem P sm key val w))
          = setIn (tag sm) key c (staticTagMap w)))"
    by (auto simp: storeItem_def promise_defs split: sum.splits prod.splits)
  with assms show ?thesis by (auto simp: keys_valid_changes)
qed

lemma keys_valid_retrieveItem:
  assumes "keys_valid (staticTagMap w)"
  shows "keys_valid (staticTagMap (after (retrieveItem P sm key remove w)))"
proof -
  have "staticTagMap (after (retrieveItem P sm key remove w)) = staticTagMap w
    \<or> staticTagMap (after (retrieveItem P sm key remove w))
         = deleteIn (tag sm) key (staticTagMap w)"
    by (simp add: retrieveItem_def promise_defs split: sum.splits prod.splits)
  with assms show ?thesis by (auto simp: keys_valid_changes)
qed

lemma keys_valid_empty_map:
  assumes "keys_valid (staticTagMap w)"
  shows "keys_valid (staticTagMap (snd (empty_map sm w)))"
  using keys_valid_changes(2) [OF assms, of "tag sm"] assms
  by (simp add: empty_map_def split: option.splits)

section \<open>Storing and retrieving\<close>

text \<open>
  C1. With a store for the tag, a key that passes \<open>keyCheck\<close> and is not yet in the
  store, and a keychain in which decryption inverts encryption under the handle:
  \<open>storeItem\<close> resolves, and \<open>retrieveItem\<close> with \<open>remove = false\<close>, run next, resolves
  with the value that was stored.
\<close>

theorem store_then_retrieve_roundtrip:
  assumes "keyCheck key" and "staticTagMap w (tag sm) \<noteq> None"
    and "\<not> hasIn (tag sm) key (staticTagMap w)"
    and "decrypt_inverts_encrypt P (fullTag sm) val (keychain w)"
  shows "outcome (storeItem P sm key val w) = Inr sm
    \<and> outcome (retrieveItem P sm key False (after (storeItem P sm key val w))) = Inr val"
  using assms
  by (auto simp: storeItem_def retrieveItem_def promise_defs hasIn_def getIn_def setIn_def
      decrypt_inverts_encrypt_def split: sum.splits prod.splits option.splits)

theorem store_then_retrieve_roundtrip_witness:
  "keyCheck ''ghijkl''
   \<and> staticTagMap world1 (tag (new_SecureMap ''locker'')) \<noteq> None
   \<and> \<not> hasIn (tag (new_SecureMap ''locker'')) ''ghijkl'' (staticTagMap world1)
   \<and> decrypt_inverts_encrypt (mem_provider {}) (fullTag (new_SecureMap ''locker'')) ''secret'' (keychain world1)
   \<and> outcome (storeItem (mem_provider {}) (new_SecureMap ''locker'') ''ghijkl'' ''secret'' world1)
        = Inr (new_SecureMap ''locker'')
   \<and> outcome (retrieveItem (mem_provider {}) (new_SecureMap ''locker'') ''ghijkl'' False
        (after (storeItem (mem_provider {}) (new_SecureMap ''locker'') ''ghijkl'' ''secret'' world1)))
        = Inr ''secret''"
proof -
  let ?sm = "new_SecureMap ''locker''"
  have a: "keyCheck ''ghijkl''" by (rule keyCheck_samples)
  have b: "staticTagMap world1 (tag ?sm) \<noteq> None"
    by (simp add: world1_def new_SecureMap_def)
  have c: "\<not> hasIn (tag ?sm) ''ghijkl'' (staticTagMap world1)"
    by (simp add: world1_def new_SecureMap_def hasIn_def)
  have d: "decrypt_inverts_encrypt (mem_provider {}) (fullTag ?sm) ''secret'' (keychain world1)"
    by (simp add: decrypt_inverts_encrypt_def mem_provider_def world1_def new_SecureMap_def)
  show ?thesis
    using a b c d store_then_retrieve_roundtrip [OF a b c d] by simp
qed

text \<open>
  The empty key is not in the store, yet \<open>storeItem\<close> throws on it and the retrieval
  that follows does not resolve with the value.
\<close>

theorem store_then_retrieve_empty_key:
  "staticTagMap world1 (tag (new_SecureMap ''locker'')) \<noteq> None
   \<and> \<not> hasIn (tag (new_SecureMap ''locker'')) '''' (staticTagMap world1)
   \<and> decrypt_inverts_encrypt (mem_provider {}) (fullTag (new_SecureMap ''locker'')) ''secret'' (keychain world1)
   \<and> outcome (storeItem (mem_provider {}) (new_SecureMap ''locker'') '''' ''secret'' world1)
        = Inl KeyEmptyOrWhitespace
   \<and> outcome (retrieveItem (mem_provider {}) (new_SecureMap ''locker'') '''' False
        (after (storeItem (mem_provider {}) (new_SecureMap ''locker'') '''' ''secret'' world1)))
        \<noteq> Inr ''secret''"
  by (simp add: eval_defs)

text \<open>
  C3. In a store that exists, \<open>storeItem\<close> on a key that is already there fails with
  AlreadyExists and leaves the state of the process as it was: the ciphertext stored under
  the key is the one from before, and the keychain module is not called.
\<close>

theorem storeItem_existing_key_rejected:
  assumes "keys_valid (staticTagMap w)" and "staticTagMap w (tag sm) = Some c"
    and "c key = Some ct"
  shows "outcome (storeItem P sm key val w) = Inl (KeyAlreadyInMap key)
    \<and> fails_with (storeItem P sm key val w) AlreadyExists
    \<and> after (storeItem P sm key val w) = w
    \<and> getIn (tag sm) key [] (staticTagMap (after (storeItem P sm key val w))) = ct"
proof -
  from assms have "keyCheck key" unfolding keys_valid_def by blast
  with assms(2,3) show ?thesis
    by (simp add: storeItem_def reject_def hasIn_def getIn_def fails_with_def)
qed

theorem storeItem_existing_key_rejected_witness:
  "keys_valid (staticTagMap world1)
   \<and> staticTagMap world1 (tag (new_SecureMap ''locker'')) = Some [''abcdef'' \<mapsto> ''terces'']
   \<and> [''abcdef'' \<mapsto> ''terces''] ''abcdef'' = Some ''terces''
   \<and> outcome (storeItem (mem_provider {}) (new_SecureMap ''locker'') ''abcdef'' ''again'' world1)
       = Inl (KeyAlreadyInMap ''abcdef'')
   \<and> after (storeItem (mem_provider {}) (new_SecureMap ''locker'') ''abcdef'' ''again'' world1) = world1
   \<and> getIn ''locker'' ''abcdef'' []
        (staticTagMap (after (storeItem (mem_provider {}) (new_SecureMap ''locker'') ''abcdef'' ''again'' world1)))
       = ''terces''"
proof -
  let ?sm = "new_SecureMap ''locker''"
  have s: "staticTagMap world1 (tag ?sm) = Some [''abcdef'' \<mapsto> ''terces'']"
    by (simp add: world1_def new_SecureMap_def)
  have c: "[''abcdef'' \<mapsto> ''terces''] ''abcdef'' = Some ''terces''" by simp
  show ?thesis
    using keys_valid_world1 s
      storeItem_existing_key_rejected [OF keys_valid_world1 s c, of "mem_provider {}" "''again''"]
    by (simp add: new_SecureMap_def getIn_def world1_def)
qed

text \<open>
  C7. \<open>retrieveItem\<close> with \<open>remove = true\<close> on a key that is in the store calls
  \<open>decrypt\<close> on the stored ciphertext. If \<open>decrypt\<close> rejects, the rejection is passed on
  and the registry is as before. If it resolves, the registry is still as before at the
  moment it resolves, and the entry is gone when \<open>retrieveItem\<close> resolves.
\<close>

theorem retrieveItem_removes_after_decrypt:
  assumes "keyCheck key" and "staticTagMap w (tag sm) = Some c" and "c key = Some ct"
    and "decrypt P ct (fullTag sm) (keychain w) = (r, k')"
  shows "calls (after (retrieveItem P sm key True w)) = calls w @ [Decrypt ct (fullTag sm)]
    \<and> (\<forall>m. r = Inl m \<longrightarrow>
          outcome (retrieveItem P sm key True w) = Inl (ProviderError m)
        \<and> staticTagMap (after (retrieveItem P sm key True w)) = staticTagMap w)
    \<and> (\<forall>v. r = Inr v \<longrightarrow>
          outcome (retrieveItem P sm key True w) = Inr v
        \<and> map staticTagMap (between (retrieveItem P sm key True w)) = [staticTagMap w]
        \<and> staticTagMap (after (retrieveItem P sm key True w))
            = (staticTagMap w)(tag sm \<mapsto> c(key := None)))"
  using assms
  by (auto simp: retrieveItem_def promise_defs hasIn_def getIn_def deleteIn_def split: sum.splits)

theorem retrieveItem_removes_after_decrypt_witness:
  "keyCheck ''abcdef''
   \<and> staticTagMap world1 (tag (new_SecureMap ''locker'')) = Some [''abcdef'' \<mapsto> ''terces'']
   \<and> outcome (retrieveItem (mem_provider {OpDecrypt}) (new_SecureMap ''locker'') ''abcdef'' True world1)
       = Inl (ProviderError ''decrypt failed'')
   \<and> staticTagMap (after (retrieveItem (mem_provider {OpDecrypt}) (new_SecureMap ''locker'') ''abcdef'' True world1))
       = staticTagMap world1
   \<and> outcome (retrieveItem (mem_provider {}) (new_SecureMap ''locker'') ''abcdef'' True world1)
       = Inr ''secret''
   \<and> \<not> hasIn ''locker'' ''abcdef''
         (staticTagMap (after (retrieveItem (mem_provider {}) (new_SecureMap ''locker'') ''abcdef'' True world1)))"
proof -
  let ?sm = "new_SecureMap ''locker''"
  have k: "keyCheck ''abcdef''" by (rule keyCheck_samples)
  have s: "staticTagMap world1 (tag ?sm) = Some [''abcdef'' \<mapsto> ''terces'']"
    by (simp add: world1_def new_SecureMap_def)
  have c: "[''abcdef'' \<mapsto> ''terces''] ''abcdef'' = Some ''terces''" by simp
  have d1: "decrypt (mem_provider {OpDecrypt}) ''terces'' (fullTag ?sm) (keychain world1)
      = (Inl ''decrypt failed'', keychain world1)"
    by (simp add: mem_provider_def)
  have d2: "decrypt (mem_provider {}) ''terces'' (fullTag ?sm) (keychain world1)
      = (Inr ''secret'', keychain world1)"
    by (simp add: mem_provider_def world1_def new_SecureMap_def)
  show ?thesis
    using k s retrieveItem_removes_after_decrypt [OF k s c d1]
      retrieveItem_removes_after_decrypt [OF k s c d2]
    by (simp add: world1_def new_SecureMap_def hasIn_def)
qed

text \<open>
  C10. \<open>storeItem\<close>, \<open>retrieveItem\<close> and \<open>empty\<close> of a secure map bound to a tag leave
  the entry of every other tag in the registry as it was (present with the same
  collection, or absent), at every point of their run.
\<close>

theorem handle_operations_frame:
  assumes "t \<noteq> tag sm"
  shows "staticTagMap (after (storeItem P sm key val w)) t = staticTagMap w t
    \<and> (\<forall>w' \<in> set (between (storeItem P sm key val w)). staticTagMap w' t = staticTagMap w t)
    \<and> staticTagMap (after (retrieveItem P sm key remove w)) t = staticTagMap w t
    \<and> (\<forall>w' \<in> set (between (retrieveItem P sm key remove w)). staticTagMap w' t = staticTagMap w t)
    \<and> staticTagMap (snd (empty_map sm w)) t = staticTagMap w t"
  using assms
  by (auto simp: storeItem_def retrieveItem_def empty_map_def promise_defs setIn_def deleteIn_def
      split: sum.splits prod.splits option.splits)

theorem handle_operations_frame_witness:
  "''other'' \<noteq> tag (new_SecureMap ''locker'')
   \<and> staticTagMap (after (storeItem (mem_provider {}) (new_SecureMap ''locker'') ''ghijkl'' ''secret'' world1)) ''other''
       = Some [''qrstuv'' \<mapsto> ''nepo'']
   \<and> staticTagMap (after (retrieveItem (mem_provider {}) (new_SecureMap ''locker'') ''abcdef'' True world1)) ''other''
       = Some [''qrstuv'' \<mapsto> ''nepo'']
   \<and> staticTagMap (snd (empty_map (new_SecureMap ''locker'') world1)) ''other''
       = Some [''qrstuv'' \<mapsto> ''nepo'']
   \<and> staticTagMap (snd (empty_map (new_SecureMap ''locker'') world1)) ''locker'' = Some Map.empty"
proof -
  have n: "''other'' \<noteq> tag (new_SecureMap ''locker'')" by (simp add: new_SecureMap_def)
  have e: "staticTagMap (snd (empty_map (new_SecureMap ''locker'') world1)) ''locker'' = Some Map.empty"
    by (simp add: empty_map_def new_SecureMap_def world1_def)
  show ?thesis
    using n e
      handle_operations_frame [OF n, where P = "mem_provider {}" and key = "''ghijkl''"
        and val = "''secret''" and w = world1 and remove = True]
      handle_operations_frame [OF n, where P = "mem_provider {}" and key = "''abcdef''"
        and val = "''secret''" and w = world1 and remove = True]
    by (simp add: world1_def)
qed

section \<open>Validation\<close>

text \<open>
  C6. \<open>getMapForId\<close> and \<open>disposeKeysForId\<close> on a tag that fails \<open>keyCheck\<close>,
  \<open>storeItem\<close> and \<open>retrieveItem\<close> on a key that fails it, on a tag without a store,
  and \<open>retrieveItem\<close> on a key that is not in the store, fail with InvalidArgument,
  Disposed and NotFound, in this order of precedence, and leave the state of the
  process, the list of calls to the keychain module included, as it was.
\<close>

theorem validation_before_provider:
  "(\<not> keyCheck tid \<longrightarrow>
      fails_with (getMapForId P tid w) InvalidArgument \<and> after (getMapForId P tid w) = w)
 \<and> (\<not> keyCheck tid \<longrightarrow>
      fails_with (disposeKeysForId P tid w) InvalidArgument \<and> after (disposeKeysForId P tid w) = w)
 \<and> (\<not> keyCheck key \<longrightarrow>
      fails_with (storeItem P sm key val w) InvalidArgument \<and> after (storeItem P sm key val w) = w)
 \<and> (keyCheck key \<and> staticTagMap w (tag sm) = None \<longrightarrow>
      fails_with (storeItem P sm key val w) Disposed \<and> after (storeItem P sm key val w) = w)
 \<and> (\<not> keyCheck key \<longrightarrow>
      fails_with (retrieveItem P sm key remove w) InvalidArgument
      \<and> after (retrieveItem P sm key remove w) = w)
 \<and> (keyCheck key \<and> staticTagMap w (tag sm) = None \<longrightarrow>
      fails_with (retrieveItem P sm key remove w) Disposed
      \<and> after (retrieveItem P sm key remove w) = w)
 \<and> (keyCheck key \<and> staticTagMap w (tag sm) \<noteq> None \<and> \<not> hasIn (tag sm) key (staticTagMap w) \<longrightarrow>
      fails_with (retrieveItem P sm key remove w) NotFound
      \<and> after (retrieveItem P sm key remove w) = w)"
  apply (intro conjI impI)
  apply (simp_all add: getMapForId_def disposeKeysForId_def storeItem_def retrieveItem_def
      fails_with_def then_p_def resolve_def reject_def)
  done

theorem validation_before_provider_witness:
  "\<not> keyCheck '''' \<and> \<not> keyCheck ''a b''
   \<and> fails_with (getMapForId (mem_provider {}) '''' world1) InvalidArgument
   \<and> after (getMapForId (mem_provider {}) '''' world1) = world1
   \<and> fails_with (disposeKeysForId (mem_provider {}) '''' world1) InvalidArgument
   \<and> after (disposeKeysForId (mem_provider {}) '''' world1) = world1
   \<and> fails_with (storeItem (mem_provider {}) (new_SecureMap ''locker'') ''a b'' ''secret'' world1) InvalidArgument
   \<and> after (storeItem (mem_provider {}) (new_SecureMap ''locker'') ''a b'' ''secret'' world1) = world1
   \<and> fails_with (retrieveItem (mem_provider {}) (new_SecureMap ''locker'') ''a b'' True world1) InvalidArgument
   \<and> after (retrieveItem (mem_provider {}) (new_SecureMap ''locker'') ''a b'' True world1) = world1
   \<and> keyCheck ''abcdef'' \<and> staticTagMap world1 (tag (new_SecureMap ''gone'')) = None
   \<and> fails_with (storeItem (mem_provider {}) (new_SecureMap ''gone'') ''abcdef'' ''secret'' world1) Disposed
   \<and> fails_with (retrieveItem (mem_provider {}) (new_SecureMap ''gone'') ''abcdef'' True world1) Disposed
   \<and> after (retrieveItem (mem_provider {}) (new_SecureMap ''gone'') ''abcdef'' True world1) = world1
   \<and> keyCheck ''zzzzzz'' \<and> staticTagMap world1 (tag (new_SecureMap ''locker'')) \<noteq> None
   \<and> \<not> hasIn (tag (new_SecureMap ''locker'')) ''zzzzzz'' (staticTagMap world1)
   \<and> fails_with (retrieveItem (mem_provider {}) (new_SecureMap ''locker'') ''zzzzzz'' True world1) NotFound
   \<and> after (retrieveItem (mem_provider {}) (new_SecureMap ''locker'') ''zzzzzz'' True world1) = world1"
proof -
  have b: "staticTagMap world1 (tag (new_SecureMap ''gone'')) = None"
    "staticTagMap world1 (tag (new_SecureMap ''locker'')) \<noteq> None"
    "\<not> hasIn (tag (new_SecureMap ''locker'')) ''zzzzzz'' (staticTagMap world1)"
    by (simp_all add: world1_def new_SecureMap_def hasIn_def)
  show ?thesis
    using keyCheck_samples b
      validation_before_provider [of "''''" "mem_provider {}" world1 "''a b''"
        "new_SecureMap ''locker''" "''secret''" True]
      validation_before_provider [of "''''" "mem_provider {}" world1 "''abcdef''"
        "new_SecureMap ''gone''" "''secret''" True]
      validation_before_provider [of "''''" "mem_provider {}" world1 "''zzzzzz''"
        "new_SecureMap ''locker''" "''secret''" True]
    by simp
qed

text \<open>
  \<open>isIdInDeviceKeychain\<close> does not check the tag: on the empty tag it asks the keychain
  module and resolves. \<open>hasItem\<close> does not check the key: on the empty key it returns
  \<^verbatim>\<open>false\<close>.
\<close>

theorem unvalidated_operations:
  "\<not> keyCheck ''''
   \<and> outcome (isIdInDeviceKeychain (mem_provider {}) '''' world0) = Inr False
   \<and> calls (after (isIdInDeviceKeychain (mem_provider {}) '''' world0))
       = [GetPublicKey ''com.github.superguineapig+'']
   \<and> hasItem (new_SecureMap ''locker'') '''' world1 = Inr False"
  by (simp add: eval_defs)

section \<open>Disposal and eviction\<close>

text \<open>
  C4. \<open>disposeKeysForId\<close> on a tag that passes \<open>keyCheck\<close> and whose keypair the
  keychain reports calls \<open>deletePrivateKey\<close>, and the registry is untouched at every
  point up to and including the one at which the deletion has resolved. If the deletion
  rejects, the rejection is passed on and the registry is what it was before the call.
  If it resolves, the tag is dropped from the registry in the last step.
\<close>

theorem dispose_deletes_keypair_first:
  assumes "keyCheck tid"
    and "getPublicKey P (getInternalId tid) (keychain w) = (Inr (Some pub), k1)"
    and "deletePrivateKey P (getInternalId tid) k1 = (r, k2)"
  shows "calls (after (disposeKeysForId P tid w))
           = calls w @ [GetPublicKey (getInternalId tid), DeletePrivateKey (getInternalId tid)]
    \<and> (\<forall>w' \<in> set (between (disposeKeysForId P tid w)). staticTagMap w' = staticTagMap w)
    \<and> (\<forall>m. r = Inl m \<longrightarrow>
          outcome (disposeKeysForId P tid w) = Inl (ProviderError m)
        \<and> staticTagMap (after (disposeKeysForId P tid w)) = staticTagMap w)
    \<and> (r = Inr () \<longrightarrow>
          outcome (disposeKeysForId P tid w) = Inr ()
        \<and> last (between (disposeKeysForId P tid w))
            = w\<lparr>keychain := k2,
                calls := calls w @ [GetPublicKey (getInternalId tid),
                                    DeletePrivateKey (getInternalId tid)]\<rparr>
        \<and> staticTagMap (after (disposeKeysForId P tid w)) = (staticTagMap w)(tid := None))"
  using assms
  by (auto simp: disposeKeysForId_def chain_defs split: sum.splits)

theorem dispose_deletes_keypair_first_witness:
  "keyCheck ''locker''
   \<and> getPublicKey (mem_provider {OpDelete}) (getInternalId ''locker'') (keychain world1)
       = (Inr (Some (''pub:'' @ getInternalId ''locker'')), keychain world1)
   \<and> deletePrivateKey (mem_provider {OpDelete}) (getInternalId ''locker'') (keychain world1)
       = (Inl ''delete failed'', keychain world1)
   \<and> outcome (disposeKeysForId (mem_provider {OpDelete}) ''locker'' world1)
       = Inl (ProviderError ''delete failed'')
   \<and> staticTagMap (after (disposeKeysForId (mem_provider {OpDelete}) ''locker'' world1))
       = staticTagMap world1
   \<and> deletePrivateKey (mem_provider {}) (getInternalId ''locker'') (keychain world1)
       = (Inr (), {getInternalId ''other''})
   \<and> outcome (disposeKeysForId (mem_provider {}) ''locker'' world1) = Inr ()
   \<and> calls (after (disposeKeysForId (mem_provider {}) ''locker'' world1))
       = [GetPublicKey (getInternalId ''locker''), DeletePrivateKey (getInternalId ''locker'')]
   \<and> staticTagMap (last (between (disposeKeysForId (mem_provider {}) ''locker'' world1)))
       = staticTagMap world1
   \<and> staticTagMap (after (disposeKeysForId (mem_provider {}) ''locker'' world1))
       = (staticTagMap world1)(''locker'' := None)"
proof -
  have k: "keyCheck ''locker''" by (rule keyCheck_samples)
  have q1: "getPublicKey (mem_provider {OpDelete}) (getInternalId ''locker'') (keychain world1)
       = (Inr (Some (''pub:'' @ getInternalId ''locker'')), keychain world1)"
    by (simp add: mem_provider_def world1_def)
  have q2: "getPublicKey (mem_provider {}) (getInternalId ''locker'') (keychain world1)
       = (Inr (Some (''pub:'' @ getInternalId ''locker'')), keychain world1)"
    by (simp add: mem_provider_def world1_def)
  have d1: "deletePrivateKey (mem_provider {OpDelete}) (getInternalId ''locker'') (keychain world1)
       = (Inl ''delete failed'', keychain world1)"
    by (simp add: mem_provider_def)
  have d2: "deletePrivateKey (mem_provider {}) (getInternalId ''locker'') (keychain world1)
       = (Inr (), {getInternalId ''other''})"
    by (auto simp: mem_provider_def world1_def getInternalId_def)
  show ?thesis
    using k q1 d1 d2 dispose_deletes_keypair_first [OF k q1 d1]
      dispose_deletes_keypair_first [OF k q2 d2]
    by (simp add: world1_def)
qed

text \<open>
  C8. After \<open>evict\<close> has resolved on a locker, \<open>isEvicted\<close> on that locker resolves
  with \<^verbatim>\<open>true\<close> and leaves the state of the process, the list of calls to the keychain
  module included, as it was; and \<open>evict\<close> once more fails with NotFound (the keychain
  module reporting no key for a handle whose deletion has resolved).
\<close>

theorem evict_is_final:
  assumes "outcome (evict P L w) = Inr L'" and "deleted_key_is_gone P"
  shows "L' = L\<lparr>evicted := True\<rparr>
    \<and> outcome (isEvicted P L' (after (evict P L w))) = Inr (True, L')
    \<and> after (isEvicted P L' (after (evict P L w))) = after (evict P L w)
    \<and> outcome (evict P L' (after (evict P L w))) = Inl (KeysAlreadyDisposed (locker_id L))
    \<and> fails_with (evict P L' (after (evict P L w))) NotFound"
proof -
  let ?t = "locker_id L" and ?w' = "after (evict P L w)"
  from assms(1) have L': "L' = L\<lparr>evicted := True\<rparr>"
    and "outcome (disposeKeysForId P ?t w) = Inr ()"
    by (auto simp: evict_settled split: sum.splits)
  from disposeKeysForId_resolved [OF this(2)] obtain pub k1 k2 where
    ok: "keyCheck ?t"
    and del: "deletePrivateKey P (getInternalId ?t) k1 = (Inr (), k2)"
    and k2: "keychain (after (disposeKeysForId P ?t w)) = k2"
    by blast
  from del assms(2) have "fst (getPublicKey P (getInternalId ?t) k2) = Inr None"
    unfolding deleted_key_is_gone_def by blast
  with k2 have gone: "fst (getPublicKey P (getInternalId ?t) (keychain ?w')) = Inr None"
    by (simp add: evict_settled)
  have id': "locker_id L' = ?t" by (simp add: L' locker_id_def)
  have again: "outcome (evict P L' ?w') = Inl (KeysAlreadyDisposed ?t)"
    using disposeKeysForId_absent [OF ok gone] by (simp add: evict_settled [of P L'] id')
  have known: "isEvicted P L' ?w' = resolve (True, L') ?w'"
    by (simp add: isEvicted_def L')
  show ?thesis
    using L' again known by (simp add: resolve_def fails_with_def)
qed

theorem evict_is_final_witness:
  "outcome (evict (mem_provider {}) (new_VarLocker (new_SecureMap ''locker'')) world1)
       = Inr ((new_VarLocker (new_SecureMap ''locker''))\<lparr>evicted := True\<rparr>)
   \<and> deleted_key_is_gone (mem_provider {})
   \<and> outcome (isEvicted (mem_provider {}) ((new_VarLocker (new_SecureMap ''locker''))\<lparr>evicted := True\<rparr>)
         (after (evict (mem_provider {}) (new_VarLocker (new_SecureMap ''locker'')) world1)))
       = Inr (True, (new_VarLocker (new_SecureMap ''locker''))\<lparr>evicted := True\<rparr>)
   \<and> fails_with (evict (mem_provider {}) ((new_VarLocker (new_SecureMap ''locker''))\<lparr>evicted := True\<rparr>)
         (after (evict (mem_provider {}) (new_VarLocker (new_SecureMap ''locker'')) world1))) NotFound"
proof -
  let ?L = "new_VarLocker (new_SecureMap ''locker'')"
  have e: "outcome (evict (mem_provider {}) ?L world1) = Inr (?L\<lparr>evicted := True\<rparr>)"
    by (simp add: eval_defs)
  show ?thesis
    using e deleted_key_is_gone_mem evict_is_final [OF e deleted_key_is_gone_mem]
    by simp
qed

text \<open>
  C9. On a locker whose flag is not set, \<open>isEvicted\<close> asks the keychain module for the
  public key, once. If the answer is \<^verbatim>\<open>null\<close> or the query rejects, it resolves with
  \<^verbatim>\<open>true\<close> and the flag set; if a key is reported, it resolves with \<^verbatim>\<open>false\<close> and the
  locker unchanged. It never rejects.
\<close>

theorem isEvicted_fails_open:
  assumes "\<not> evicted L"
    and "getPublicKey P (getInternalId (locker_id L)) (keychain w) = (r, k')"
  shows "calls (after (isEvicted P L w)) = calls w @ [GetPublicKey (getInternalId (locker_id L))]
    \<and> ((r = Inr None \<or> (\<exists>m. r = Inl m)) \<longrightarrow>
          outcome (isEvicted P L w) = Inr (True, L\<lparr>evicted := True\<rparr>))
    \<and> ((\<exists>pub. r = Inr (Some pub)) \<longrightarrow>
          outcome (isEvicted P L w) = Inr (False, L))"
  using assms
  by (auto simp: isEvicted_def chain_defs split: sum.splits)

theorem isEvicted_fails_open_witness:
  "\<not> evicted (new_VarLocker (new_SecureMap ''locker''))
   \<and> outcome (isEvicted (mem_provider {}) (new_VarLocker (new_SecureMap ''locker'')) world1)
       = Inr (False, new_VarLocker (new_SecureMap ''locker''))
   \<and> outcome (isEvicted (mem_provider {}) (new_VarLocker (new_SecureMap ''locker'')) world0)
       = Inr (True, (new_VarLocker (new_SecureMap ''locker''))\<lparr>evicted := True\<rparr>)
   \<and> outcome (isEvicted (mem_provider {OpGetPublicKey}) (new_VarLocker (new_SecureMap ''locker'')) world1)
       = Inr (True, (new_VarLocker (new_SecureMap ''locker''))\<lparr>evicted := True\<rparr>)
   \<and> calls (after (isEvicted (mem_provider {OpGetPublicKey}) (new_VarLocker (new_SecureMap ''locker'')) world1))
       = [GetPublicKey (getInternalId ''locker'')]"
proof -
  let ?L = "new_VarLocker (new_SecureMap ''locker'')"
  have e: "\<not> evicted ?L" by (simp add: new_VarLocker_def)
  have i: "locker_id ?L = ''locker''" by (simp add: locker_id_def new_VarLocker_def new_SecureMap_def)
  have q1: "getPublicKey (mem_provider {}) (getInternalId (locker_id ?L)) (keychain world1)
       = (Inr (Some (''pub:'' @ getInternalId ''locker'')), keychain world1)"
    by (simp add: i mem_provider_def world1_def)
  have q2: "getPublicKey (mem_provider {}) (getInternalId (locker_id ?L)) (keychain world0)
       = (Inr None, keychain world0)"
    by (simp add: i mem_provider_def world0_def)
  have q3: "getPublicKey (mem_provider {OpGetPublicKey}) (getInternalId (locker_id ?L)) (keychain world1)
       = (Inl ''getPublicKey failed'', keychain world1)"
    by (simp add: i mem_provider_def)
  show ?thesis
    using e isEvicted_fails_open [OF e q1] isEvicted_fails_open [OF e q2]
      isEvicted_fails_open [OF e q3]
    by (simp add: i world1_def)
qed

section \<open>Ensuring a store\<close>

lemma getMapForId_when_live:
  assumes "keyCheck tid" and "live P (getInternalId tid) (keychain w)"
  shows "outcome (getMapForId P tid w) = Inr (new_SecureMap tid)"
    and "calls (after (getMapForId P tid w)) = calls w @ [GetPublicKey (getInternalId tid)]"
    and "keychain (after (getMapForId P tid w))
           = snd (getPublicKey P (getInternalId tid) (keychain w))"
    and "staticTagMap (after (getMapForId P tid w))
           = (if staticTagMap w tid = None then (staticTagMap w)(tid \<mapsto> Map.empty)
              else staticTagMap w)"
proof -
  from assms(2) obtain pub k1 where
    q: "getPublicKey P (getInternalId tid) (keychain w) = (Inr (Some pub), k1)"
    unfolding live_query by blast
  note run = getMapForId_has_keys [OF assms(1) q refl refl]
  show "outcome (getMapForId P tid w) = Inr (new_SecureMap tid)"
    and "calls (after (getMapForId P tid w)) = calls w @ [GetPublicKey (getInternalId tid)]"
    and "keychain (after (getMapForId P tid w))
           = snd (getPublicKey P (getInternalId tid) (keychain w))"
    and "staticTagMap (after (getMapForId P tid w))
           = (if staticTagMap w tid = None then (staticTagMap w)(tid \<mapsto> Map.empty)
              else staticTagMap w)"
    by (simp_all add: run q)
qed

lemma getMapForId_resolved:
  assumes "outcome (getMapForId P tid w) = Inr sm"
    and "queries_keep_keys P" and "generate_makes_live P"
  shows "keyCheck tid" and "sm = new_SecureMap tid"
    and "live P (getInternalId tid) (keychain (after (getMapForId P tid w)))"
    and "staticTagMap (after (getMapForId P tid w))
           = (if staticTagMap w tid = None then (staticTagMap w)(tid \<mapsto> Map.empty)
              else staticTagMap w)"
proof -
  let ?h = "getInternalId tid"
  show ok: "keyCheck tid"
    using assms(1) by (cases "keyCheck tid") (simp_all add: getMapForId_invalid)
  have "sm = new_SecureMap tid
    \<and> live P ?h (keychain (after (getMapForId P tid w)))
    \<and> staticTagMap (after (getMapForId P tid w))
           = (if staticTagMap w tid = None then (staticTagMap w)(tid \<mapsto> Map.empty)
              else staticTagMap w)"
  proof (cases rule: query_cases [of P ?h "keychain w"])
    case (failed m k1)
    from assms(1) show ?thesis by (simp add: getMapForId_query_failed [OF ok failed])
  next
    case (present pub k1)
    then have "live P ?h (keychain w)" unfolding live_query by blast
    with assms(2) have "live P ?h (snd (getPublicKey P ?h (keychain w)))"
      unfolding queries_keep_keys_def keeps_keys_def by blast
    with assms(1) show ?thesis
      by (simp add: getMapForId_has_keys [OF ok present refl refl] present)
  next
    case (absent k1)
    show ?thesis
    proof (cases rule: unit_result_cases [of "generate P ?h k1"])
      case (failed m k2)
      from assms(1) show ?thesis
        by (simp add: getMapForId_generate_failed [OF ok absent failed refl])
    next
      case (resolved k2)
      with assms(3) have "live P ?h k2"
        unfolding generate_makes_live_def by (metis fst_conv snd_conv)
      with assms(1) show ?thesis
        by (simp add: getMapForId_generated [OF ok absent resolved refl refl refl])
    qed
  qed
  then show "sm = new_SecureMap tid"
    and "live P ?h (keychain (after (getMapForId P tid w)))"
    and "staticTagMap (after (getMapForId P tid w))
           = (if staticTagMap w tid = None then (staticTagMap w)(tid \<mapsto> Map.empty)
              else staticTagMap w)"
    by simp_all
qed

lemma mem_provider_keys:
  "live (mem_provider {}) h k \<longleftrightarrow> h \<in> k"
  by (simp add: live_def mem_provider_def)

lemma queries_keep_keys_mem: "queries_keep_keys (mem_provider {})"
  by (simp add: queries_keep_keys_def keeps_keys_def mem_provider_keys)
    (simp add: mem_provider_def)

lemma generate_makes_live_mem: "generate_makes_live (mem_provider {})"
  by (simp add: generate_makes_live_def mem_provider_keys)
    (simp add: mem_provider_def)

text \<open>
  C5. When \<open>getMapForId\<close> has resolved for a tag, the existence query for the tag
  resolves with \<^verbatim>\<open>true\<close>; a tag that had no entry collection has an empty one and a
  tag that had one has it unchanged, the rest of the registry being as before; when the
  keypair was already there, the only call to the keychain module is the existence
  query, so that no keypair is generated. Calling \<open>getMapForId\<close> again resolves with
  the same secure map, leaves the registry as it is and generates no keypair. The
  keychain module is taken to report a keypair it has just generated, and to keep
  reporting a keypair it has reported.
\<close>

theorem getMapForId_ensures_store:
  assumes "outcome (getMapForId P tid w) = Inr sm"
    and "queries_keep_keys P" and "generate_makes_live P"
  shows "sm = new_SecureMap tid
    \<and> outcome (isIdInDeviceKeychain P tid (after (getMapForId P tid w))) = Inr True
    \<and> (staticTagMap w tid = None \<longrightarrow>
          staticTagMap (after (getMapForId P tid w)) = (staticTagMap w)(tid \<mapsto> Map.empty))
    \<and> (staticTagMap w tid \<noteq> None \<longrightarrow>
          staticTagMap (after (getMapForId P tid w)) = staticTagMap w)
    \<and> (live P (getInternalId tid) (keychain w) \<longrightarrow>
          calls (after (getMapForId P tid w)) = calls w @ [GetPublicKey (getInternalId tid)])
    \<and> outcome (getMapForId P tid (after (getMapForId P tid w))) = Inr sm
    \<and> staticTagMap (after (getMapForId P tid (after (getMapForId P tid w))))
         = staticTagMap (after (getMapForId P tid w))
    \<and> calls (after (getMapForId P tid (after (getMapForId P tid w))))
         = calls (after (getMapForId P tid w)) @ [GetPublicKey (getInternalId tid)]"
proof -
  let ?w' = "after (getMapForId P tid w)"
  note first = getMapForId_resolved [OF assms]
  note again = getMapForId_when_live [OF first(1) first(3)]
  have present: "staticTagMap ?w' tid \<noteq> None"
    by (simp add: first(4))
  show ?thesis
    using first(2,4) again(1,2,4) present
      getMapForId_when_live(2) [OF first(1), of P w]
    by (simp add: isIdInDeviceKeychain_live first(3))
qed

theorem getMapForId_ensures_store_witness:
  "outcome (getMapForId (mem_provider {}) ''locker'' world0) = Inr (new_SecureMap ''locker'')
   \<and> queries_keep_keys (mem_provider {}) \<and> generate_makes_live (mem_provider {})
   \<and> outcome (isIdInDeviceKeychain (mem_provider {}) ''locker''
        (after (getMapForId (mem_provider {}) ''locker'' world0))) = Inr True
   \<and> staticTagMap (after (getMapForId (mem_provider {}) ''locker'' world0))
        = [''locker'' \<mapsto> Map.empty]
   \<and> calls (after (getMapForId (mem_provider {}) ''locker'' world0))
        = [GetPublicKey (getInternalId ''locker''), Generate (getInternalId ''locker'')]
   \<and> outcome (getMapForId (mem_provider {}) ''locker'' world1) = Inr (new_SecureMap ''locker'')
   \<and> live (mem_provider {}) (getInternalId ''locker'') (keychain world1)
   \<and> staticTagMap world1 ''locker'' \<noteq> None
   \<and> staticTagMap (after (getMapForId (mem_provider {}) ''locker'' world1)) = staticTagMap world1
   \<and> calls (after (getMapForId (mem_provider {}) ''locker'' world1))
        = [GetPublicKey (getInternalId ''locker'')]"
proof -
  have a: "outcome (getMapForId (mem_provider {}) ''locker'' world0) = Inr (new_SecureMap ''locker'')"
    by (simp add: eval_defs)
  have b: "outcome (getMapForId (mem_provider {}) ''locker'' world1) = Inr (new_SecureMap ''locker'')"
    by (simp add: eval_defs)
  have c: "calls (after (getMapForId (mem_provider {}) ''locker'' world0))
        = [GetPublicKey (getInternalId ''locker''), Generate (getInternalId ''locker'')]"
    by (simp add: getMapForId_def chain_defs mem_provider_def world0_def keyCheck_samples)
  have d: "live (mem_provider {}) (getInternalId ''locker'') (keychain world1)"
    "staticTagMap world1 ''locker'' \<noteq> None" "staticTagMap world0 ''locker'' = None"
    "staticTagMap world0 = Map.empty" "calls world1 = []"
    by (simp_all add: mem_provider_keys world1_def world0_def)
  show ?thesis
    using a b c d queries_keep_keys_mem generate_makes_live_mem
      getMapForId_ensures_store [OF a queries_keep_keys_mem generate_makes_live_mem]
      getMapForId_ensures_store [OF b queries_keep_keys_mem generate_makes_live_mem]
    by simp
qed

section \<open>The registry and the keychain\<close>

subsection \<open>The registry stays backed by the keychain\<close>

lemma contract_parts:
  assumes "honours_contract P"
  shows "keeps_keys P (getPublicKey P h)" and "keeps_keys P (generate P h)"
    and "keeps_keys P (encrypt P v h)" and "keeps_keys P (decrypt P c h)"
    and "generate_makes_live P"
  using assms by (simp_all add: honours_contract_def queries_keep_keys_def)

lemma keeps_keysD: "keeps_keys P f \<Longrightarrow> live P h k \<Longrightarrow> live P h (snd (f k))"
  by (simp add: keeps_keys_def)

lemma contract_keeps:
  assumes "honours_contract P" and "live P h k"
  shows "live P h (snd (getPublicKey P h' k))"
    and "live P h (snd (generate P h' k))"
    and "live P h (snd (encrypt P v h' k))"
    and "live P h (snd (decrypt P c h' k))"
  using assms(2) contract_parts(1-4) [OF assms(1)]
  by (simp_all add: keeps_keysD)

lemma contract_generate:
  assumes "honours_contract P" and "generate P h k = (Inr (), k')"
  shows "live P h k'"
proof -
  from contract_parts(5) [OF assms(1)]
  have "fst (generate P h k) = Inr () \<longrightarrow> live P h (snd (generate P h k))"
    by (simp add: generate_makes_live_def)
  with assms(2) show ?thesis by simp
qed

lemma contract_delete_other:
  assumes "honours_contract P" and "live P h' k" and "h' \<noteq> h"
  shows "live P h' (snd (deletePrivateKey P h k))"
proof -
  from assms(1)
  have "\<forall>h h' k. h' \<noteq> h \<longrightarrow> live P h' k \<longrightarrow> live P h' (snd (deletePrivateKey P h k))"
    by (simp add: honours_contract_def)
  with assms(2,3) show ?thesis by simp
qed

lemma contract_delete_failed:
  assumes "honours_contract P" and "live P h' k" and "deletePrivateKey P h k = (Inl m, k')"
  shows "live P h' k'"
proof (cases "h' = h")
  case True
  from assms(1)
  have "\<forall>h k m. fst (deletePrivateKey P h k) = Inl m \<longrightarrow> live P h k
          \<longrightarrow> live P h (snd (deletePrivateKey P h k))"
    by (simp add: honours_contract_def)
  then have "fst (deletePrivateKey P h k) = Inl m \<longrightarrow> live P h k
          \<longrightarrow> live P h (snd (deletePrivateKey P h k))"
    by blast
  with assms(2,3) True show ?thesis by simp
next
  case False
  with assms(3) contract_delete_other [OF assms(1,2) False] show ?thesis by simp
qed

lemma registry_backed_kept:
  assumes "registry_backed P w"
    and "\<And>t. staticTagMap w' t \<noteq> None \<Longrightarrow> staticTagMap w t \<noteq> None"
    and "\<And>h. live P h (keychain w) \<Longrightarrow> live P h (keychain w')"
  shows "registry_backed P w'"
  using assms unfolding registry_backed_def by blast

lemma registry_backed_added:
  assumes "registry_backed P w"
    and "\<And>t. staticTagMap w' t \<noteq> None \<Longrightarrow> t = tid \<or> staticTagMap w t \<noteq> None"
    and "\<And>h. live P h (keychain w) \<Longrightarrow> live P h (keychain w')"
    and "live P (getInternalId tid) (keychain w')"
  shows "registry_backed P w'"
  using assms unfolding registry_backed_def by blast

lemma registry_backed_dropped:
  assumes "registry_backed P w"
    and "\<And>t. staticTagMap w' t \<noteq> None \<Longrightarrow> t \<noteq> tid \<and> staticTagMap w t \<noteq> None"
    and "\<And>h. h \<noteq> getInternalId tid \<Longrightarrow> live P h (keychain w) \<Longrightarrow> live P h (keychain w')"
  shows "registry_backed P w'"
  using assms unfolding registry_backed_def by (metis getInternalId_inject)

lemma getMapForId_backed:
  assumes c: "honours_contract P" and b: "registry_backed P w"
  shows "registry_backed P (after (getMapForId P tid w))
    \<and> (\<forall>w' \<in> set (between (getMapForId P tid w)). registry_backed P w')"
proof (cases "keyCheck tid")
  case False
  with b show ?thesis by (simp add: getMapForId_invalid)
next
  case ok: True
  let ?h = "getInternalId tid"
  show ?thesis
  proof (cases rule: query_cases [of P ?h "keychain w"])
    case (failed m k1)
    have "registry_backed P (w\<lparr>keychain := k1, calls := calls w @ [GetPublicKey ?h]\<rparr>)"
      using contract_keeps(1) [OF c, of _ "keychain w" ?h] failed
      by (intro registry_backed_kept [OF b]) simp_all
    with b show ?thesis by (simp add: getMapForId_query_failed [OF ok failed])
  next
    case (present pub k1)
    define w1 where "w1 = w\<lparr>keychain := k1, calls := calls w @ [GetPublicKey ?h]\<rparr>"
    define w3 where "w3 = (if staticTagMap w tid = None
               then w1\<lparr>staticTagMap := (staticTagMap w)(tid \<mapsto> Map.empty)\<rparr> else w1)"
    have keep: "live P h k1" if "live P h (keychain w)" for h
      using contract_keeps(1) [OF c that, of ?h] present by simp
    have b1: "registry_backed P w1"
      using keep by (intro registry_backed_kept [OF b]) (simp_all add: w1_def)
    have "live P ?h (keychain w)" using present unfolding live_query by blast
    then have "live P ?h k1" by (rule keep)
    then have b3: "registry_backed P w3"
      using keep
      by (intro registry_backed_added [OF b, where tid = tid])
        (auto simp: w3_def w1_def split: if_splits)
    from b b1 b3 show ?thesis
      by (simp add: getMapForId_has_keys [OF ok present w1_def w3_def])
  next
    case (absent k1)
    define w1 where "w1 = w\<lparr>keychain := k1, calls := calls w @ [GetPublicKey ?h]\<rparr>"
    have keep1: "live P h k1" if "live P h (keychain w)" for h
      using contract_keeps(1) [OF c that, of ?h] absent by simp
    have b1: "registry_backed P w1"
      using keep1 by (intro registry_backed_kept [OF b]) (simp_all add: w1_def)
    show ?thesis
    proof (cases rule: unit_result_cases [of "generate P ?h k1"])
      case (failed m k2)
      have keep2: "live P h k2" if "live P h (keychain w)" for h
        using contract_keeps(2) [OF c keep1 [OF that], of ?h] failed by simp
      have "registry_backed P (w\<lparr>keychain := k2,
          calls := calls w @ [GetPublicKey ?h, Generate ?h]\<rparr>)"
        using keep2 by (intro registry_backed_kept [OF b]) simp_all
      with b b1 show ?thesis
        by (simp add: getMapForId_generate_failed [OF ok absent failed w1_def])
    next
      case (resolved k2)
      define w2 where "w2 = w\<lparr>keychain := k2,
          calls := calls w @ [GetPublicKey ?h, Generate ?h]\<rparr>"
      define w3 where "w3 = (if staticTagMap w tid = None
               then w2\<lparr>staticTagMap := (staticTagMap w)(tid \<mapsto> Map.empty)\<rparr> else w2)"
      have keep2: "live P h k2" if "live P h (keychain w)" for h
        using contract_keeps(2) [OF c keep1 [OF that], of ?h] resolved by simp
      have b2: "registry_backed P w2"
        using keep2 by (intro registry_backed_kept [OF b]) (simp_all add: w2_def)
      have "live P ?h k2" by (rule contract_generate [OF c resolved])
      then have b3: "registry_backed P w3"
        using keep2
        by (intro registry_backed_added [OF b, where tid = tid])
          (auto simp: w3_def w2_def split: if_splits)
      from b b1 b2 b3 show ?thesis
        by (simp add: getMapForId_generated [OF ok absent resolved w1_def w2_def w3_def])
    qed
  qed
qed

lemma disposeKeysForId_backed:
  assumes c: "honours_contract P" and b: "registry_backed P w"
  shows "registry_backed P (after (disposeKeysForId P tid w))"
proof (cases "keyCheck tid")
  case False
  with b show ?thesis by (simp add: disposeKeysForId_def reject_def)
next
  case ok: True
  let ?h = "getInternalId tid"
  let ?D = "disposeKeysForId P tid w"
  show ?thesis
  proof (cases rule: query_cases [of P ?h "keychain w"])
    case (failed m k1)
    have "after ?D = w\<lparr>keychain := k1, calls := calls w @ [GetPublicKey ?h]\<rparr>"
      by (simp add: disposeKeysForId_def chain_defs ok failed)
    then show ?thesis
      using contract_keeps(1) [OF c, of _ "keychain w" ?h] failed
      by (intro registry_backed_kept [OF b]) simp_all
  next
    case (absent k1)
    have "after ?D = w\<lparr>keychain := k1, calls := calls w @ [GetPublicKey ?h]\<rparr>"
      by (simp add: disposeKeysForId_def chain_defs ok absent)
    then show ?thesis
      using contract_keeps(1) [OF c, of _ "keychain w" ?h] absent
      by (intro registry_backed_kept [OF b]) simp_all
  next
    case (present pub k1)
    have keep1: "live P h k1" if "live P h (keychain w)" for h
      using contract_keeps(1) [OF c that, of ?h] present by simp
    show ?thesis
    proof (cases rule: unit_result_cases [of "deletePrivateKey P ?h k1"])
      case (failed m k2)
      have "after ?D = w\<lparr>keychain := k2,
          calls := calls w @ [GetPublicKey ?h, DeletePrivateKey ?h]\<rparr>"
        by (simp add: disposeKeysForId_def chain_defs ok present failed)
      then show ?thesis
        using contract_delete_failed [OF c keep1 failed]
        by (intro registry_backed_kept [OF b]) simp_all
    next
      case (resolved k2)
      have "after ?D = (if staticTagMap w tid \<noteq> None
          then w\<lparr>staticTagMap := (staticTagMap w)(tid := None), keychain := k2,
                 calls := calls w @ [GetPublicKey ?h, DeletePrivateKey ?h]\<rparr>
          else w\<lparr>keychain := k2,
                 calls := calls w @ [GetPublicKey ?h, DeletePrivateKey ?h]\<rparr>)"
        by (simp add: disposeKeysForId_def chain_defs ok present resolved)
      moreover have "live P h k2" if "h \<noteq> ?h" and "live P h (keychain w)" for h
        using contract_delete_other [OF c keep1 [OF that(2)] that(1)] resolved by simp
      ultimately show ?thesis
        by (intro registry_backed_dropped [OF b, where tid = tid])
          (auto split: if_splits)
    qed
  qed
qed

lemma storeItem_backed:
  assumes c: "honours_contract P" and b: "registry_backed P w"
  shows "registry_backed P (after (storeItem P sm key val w))
    \<and> (\<forall>w' \<in> set (between (storeItem P sm key val w)). registry_backed P w')"
proof (cases "keyCheck key \<and> staticTagMap w (tag sm) \<noteq> None
    \<and> \<not> hasIn (tag sm) key (staticTagMap w)")
  case False
  then have "after (storeItem P sm key val w) = w" "between (storeItem P sm key val w) = []"
    by (auto simp: storeItem_def reject_def)
  with b show ?thesis by simp
next
  case True
  obtain r k' where e: "encrypt P val (fullTag sm) (keychain w) = (r, k')"
    by (cases "encrypt P val (fullTag sm) (keychain w)")
  define w1 where "w1 = w\<lparr>keychain := k', calls := calls w @ [Encrypt val (fullTag sm)]\<rparr>"
  have keep: "live P h k'" if "live P h (keychain w)" for h
    using contract_keeps(3) [OF c that, of val "fullTag sm"] e by simp
  have b1: "registry_backed P w1"
    using keep by (intro registry_backed_kept [OF b]) (simp_all add: w1_def)
  show ?thesis
  proof (cases r)
    case (Inl m)
    with True e have "after (storeItem P sm key val w) = w1"
      "between (storeItem P sm key val w) = []"
      by (auto simp: storeItem_def promise_defs w1_def)
    with b1 show ?thesis by simp
  next
    case (Inr ct)
    with True e have
      "after (storeItem P sm key val w)
         = w1\<lparr>staticTagMap := setIn (tag sm) key ct (staticTagMap w)\<rparr>"
      "between (storeItem P sm key val w) = [w1]"
      by (auto simp: storeItem_def promise_defs w1_def)
    moreover have "registry_backed P (w1\<lparr>staticTagMap := setIn (tag sm) key ct (staticTagMap w)\<rparr>)"
      using keep True
      by (intro registry_backed_kept [OF b]) (auto simp: w1_def setIn_def split: if_splits)
    ultimately show ?thesis using b1 by simp
  qed
qed

lemma retrieveItem_backed:
  assumes c: "honours_contract P" and b: "registry_backed P w"
  shows "registry_backed P (after (retrieveItem P sm key remove w))
    \<and> (\<forall>w' \<in> set (between (retrieveItem P sm key remove w)). registry_backed P w')"
proof (cases "keyCheck key \<and> staticTagMap w (tag sm) \<noteq> None
    \<and> hasIn (tag sm) key (staticTagMap w)")
  case False
  then have "after (retrieveItem P sm key remove w) = w"
    "between (retrieveItem P sm key remove w) = []"
    by (auto simp: retrieveItem_def reject_def)
  with b show ?thesis by simp
next
  case True
  let ?ct = "getIn (tag sm) key [] (staticTagMap w)"
  obtain r k' where e: "decrypt P ?ct (fullTag sm) (keychain w) = (r, k')"
    by (cases "decrypt P ?ct (fullTag sm) (keychain w)")
  define w1 where "w1 = w\<lparr>keychain := k', calls := calls w @ [Decrypt ?ct (fullTag sm)]\<rparr>"
  have keep: "live P h k'" if "live P h (keychain w)" for h
    using contract_keeps(4) [OF c that, of ?ct "fullTag sm"] e by simp
  have b1: "registry_backed P w1"
    using keep by (intro registry_backed_kept [OF b]) (simp_all add: w1_def)
  show ?thesis
  proof (cases r)
    case (Inl m)
    with True e have "after (retrieveItem P sm key remove w) = w1"
      "between (retrieveItem P sm key remove w) = []"
      by (auto simp: retrieveItem_def promise_defs w1_def)
    with b1 show ?thesis by simp
  next
    case (Inr v)
    with True e have
      "after (retrieveItem P sm key remove w)
         = (if remove then w1\<lparr>staticTagMap := deleteIn (tag sm) key (staticTagMap w)\<rparr> else w1)"
      "between (retrieveItem P sm key remove w) = [w1]"
      by (auto simp: retrieveItem_def promise_defs w1_def)
    moreover have "registry_backed P (w1\<lparr>staticTagMap := deleteIn (tag sm) key (staticTagMap w)\<rparr>)"
      using keep
      by (intro registry_backed_kept [OF b])
        (auto simp: w1_def deleteIn_def split: if_splits option.splits)
    ultimately show ?thesis using b1 by simp
  qed
qed

lemma empty_map_backed:
  assumes "registry_backed P w"
  shows "registry_backed P (snd (empty_map sm w))"
  using assms
  by (intro registry_backed_kept [OF assms])
    (auto simp: empty_map_def split: option.splits if_splits)

lemma honours_contract_mem: "honours_contract (mem_provider {})"
  unfolding honours_contract_def
  by (intro conjI queries_keep_keys_mem generate_makes_live_mem)
    (simp_all add: keeps_keys_def mem_provider_keys, simp_all add: mem_provider_def)

lemma registry_backed_world1: "registry_backed (mem_provider {}) world1"
  by (simp add: registry_backed_def mem_provider_keys world1_def)

lemma getMapForId_fresh_world1:
  "getMapForId (mem_provider {}) ''fresh'' world1
     = \<lparr>outcome = Inr (new_SecureMap ''fresh''),
        after = world1\<lparr>staticTagMap := (staticTagMap world1)(''fresh'' \<mapsto> Map.empty),
                       keychain := insert (getInternalId ''fresh'') (keychain world1),
                       calls := [GetPublicKey (getInternalId ''fresh''),
                                 Generate (getInternalId ''fresh'')]\<rparr>,
        between = [world1,
                   world1\<lparr>calls := [GetPublicKey (getInternalId ''fresh'')]\<rparr>,
                   world1\<lparr>calls := [GetPublicKey (getInternalId ''fresh'')]\<rparr>,
                   world1\<lparr>keychain := insert (getInternalId ''fresh'') (keychain world1),
                          calls := [GetPublicKey (getInternalId ''fresh''),
                                    Generate (getInternalId ''fresh'')]\<rparr>,
                   world1\<lparr>keychain := insert (getInternalId ''fresh'') (keychain world1),
                          calls := [GetPublicKey (getInternalId ''fresh''),
                                    Generate (getInternalId ''fresh'')]\<rparr>,
                   world1\<lparr>staticTagMap := (staticTagMap world1)(''fresh'' \<mapsto> Map.empty),
                          keychain := insert (getInternalId ''fresh'') (keychain world1),
                          calls := [GetPublicKey (getInternalId ''fresh''),
                                    Generate (getInternalId ''fresh'')]\<rparr>]\<rparr>"
proof -
  have k: "keyCheck ''fresh''" by (simp add: keyCheck_def is_space_def)
  have q: "getPublicKey (mem_provider {}) (getInternalId ''fresh'') (keychain world1)
      = (Inr None, keychain world1)"
    by (simp add: mem_provider_def world1_def getInternalId_def)
  have g: "generate (mem_provider {}) (getInternalId ''fresh'') (keychain world1)
      = (Inr (), insert (getInternalId ''fresh'') (keychain world1))"
    by (simp add: mem_provider_def)
  have n: "staticTagMap world1 ''fresh'' = None" "calls world1 = []"
    by (simp_all add: world1_def)
  show ?thesis
    by (simp add: getMapForId_generated [OF k q g refl refl refl] n)
qed

lemma disposeKeysForId_locker_world1:
  "between (disposeKeysForId (mem_provider {}) ''locker'' world1)
     = [world1\<lparr>calls := [GetPublicKey (getInternalId ''locker'')]\<rparr>,
        world1\<lparr>calls := [GetPublicKey (getInternalId ''locker'')]\<rparr>,
        world1\<lparr>keychain := {getInternalId ''other''},
               calls := [GetPublicKey (getInternalId ''locker''),
                         DeletePrivateKey (getInternalId ''locker'')]\<rparr>]"
proof -
  have d: "keychain world1 - {getInternalId ''locker''} = {getInternalId ''other''}"
    by (auto simp: world1_def getInternalId_def)
  have m: "getInternalId ''locker'' \<in> keychain world1" "calls world1 = []"
    by (simp_all add: world1_def)
  show ?thesis
    by (simp add: disposeKeysForId_def chain_defs mem_provider_def keyCheck_samples d m)
qed

text \<open>
  C2. Run against a keychain module that honours its contract, from a state in which
  every tag of the registry has a live keypair under its derived handle: this holds
  again at every point of \<open>getMapForId\<close>, \<open>storeItem\<close> and \<open>retrieveItem\<close>, after
  \<open>empty\<close>, and when \<open>disposeKeysForId\<close> has settled; and when \<open>getMapForId\<close> has
  resolved, the tag has both its keypair and its entry collection.
\<close>

theorem registry_stays_backed:
  assumes "honours_contract P" and "registry_backed P w"
  shows "(\<forall>w' \<in> set (between (getMapForId P tid w)). registry_backed P w')
    \<and> registry_backed P (after (getMapForId P tid w))
    \<and> (\<forall>sm'. outcome (getMapForId P tid w) = Inr sm' \<longrightarrow>
          staticTagMap (after (getMapForId P tid w)) tid \<noteq> None
        \<and> live P (getInternalId tid) (keychain (after (getMapForId P tid w))))
    \<and> registry_backed P (after (disposeKeysForId P tid w))
    \<and> (\<forall>w' \<in> set (between (storeItem P sm key val w)). registry_backed P w')
    \<and> registry_backed P (after (storeItem P sm key val w))
    \<and> (\<forall>w' \<in> set (between (retrieveItem P sm key remove w)). registry_backed P w')
    \<and> registry_backed P (after (retrieveItem P sm key remove w))
    \<and> registry_backed P (snd (empty_map sm w))"
proof -
  have q: "queries_keep_keys P" and g: "generate_makes_live P"
    using assms(1) by (simp_all add: honours_contract_def)
  have "staticTagMap (after (getMapForId P tid w)) tid \<noteq> None
      \<and> live P (getInternalId tid) (keychain (after (getMapForId P tid w)))"
    if "outcome (getMapForId P tid w) = Inr sm'" for sm'
    using getMapForId_resolved(3,4) [OF that q g] by simp
  then show ?thesis
    using getMapForId_backed [OF assms] disposeKeysForId_backed [OF assms]
      storeItem_backed [OF assms] retrieveItem_backed [OF assms]
      empty_map_backed [OF assms(2)]
    by blast
qed

theorem registry_stays_backed_witness:
  "honours_contract (mem_provider {}) \<and> registry_backed (mem_provider {}) world1
   \<and> outcome (getMapForId (mem_provider {}) ''fresh'' world1) = Inr (new_SecureMap ''fresh'')
   \<and> registry_backed (mem_provider {}) (between (getMapForId (mem_provider {}) ''fresh'' world1) ! 3)
   \<and> registry_backed (mem_provider {}) (after (getMapForId (mem_provider {}) ''fresh'' world1))
   \<and> staticTagMap (after (getMapForId (mem_provider {}) ''fresh'' world1)) ''fresh'' \<noteq> None
   \<and> live (mem_provider {}) (getInternalId ''fresh'')
        (keychain (after (getMapForId (mem_provider {}) ''fresh'' world1)))
   \<and> registry_backed (mem_provider {}) (after (disposeKeysForId (mem_provider {}) ''locker'' world1))
   \<and> registry_backed (mem_provider {})
        (after (storeItem (mem_provider {}) (new_SecureMap ''locker'') ''ghijkl'' ''secret'' world1))
   \<and> registry_backed (mem_provider {})
        (after (retrieveItem (mem_provider {}) (new_SecureMap ''locker'') ''abcdef'' True world1))
   \<and> registry_backed (mem_provider {}) (snd (empty_map (new_SecureMap ''locker'') world1))"
proof -
  have o: "outcome (getMapForId (mem_provider {}) ''fresh'' world1) = Inr (new_SecureMap ''fresh'')"
    by (simp add: getMapForId_fresh_world1)
  have m: "between (getMapForId (mem_provider {}) ''fresh'' world1) ! 3
      \<in> set (between (getMapForId (mem_provider {}) ''fresh'' world1))"
    by (rule nth_mem) (simp add: getMapForId_fresh_world1)
  show ?thesis
    using honours_contract_mem registry_backed_world1 o m
      registry_stays_backed [OF honours_contract_mem registry_backed_world1,
        where tid = "''fresh''" and sm = "new_SecureMap ''locker''" and key = "''ghijkl''"
          and val = "''secret''" and remove = True]
      registry_stays_backed [OF honours_contract_mem registry_backed_world1,
        where tid = "''locker''" and sm = "new_SecureMap ''locker''" and key = "''abcdef''"
          and val = "''secret''" and remove = True]
    by blast
qed

text \<open>
  The keypair and the entry collection are not set up, nor taken down, in one step.
  In \<open>getMapForId\<close> on a new tag the keypair is live while the registry has no entry
  for the tag yet (the point at which \<open>generate\<close> has resolved). In
  \<open>disposeKeysForId\<close> the registry still has the entry of the tag when its keypair is
  gone (the point at which \<open>deletePrivateKey\<close> has resolved), so that a tag of the
  registry is without a live keypair there.
\<close>

theorem registry_and_keychain_not_atomic:
  "honours_contract (mem_provider {}) \<and> registry_backed (mem_provider {}) world1
   \<and> length (between (getMapForId (mem_provider {}) ''fresh'' world1)) = 6
   \<and> live (mem_provider {}) (getInternalId ''fresh'')
        (keychain (between (getMapForId (mem_provider {}) ''fresh'' world1) ! 3))
   \<and> staticTagMap (between (getMapForId (mem_provider {}) ''fresh'' world1) ! 3) ''fresh'' = None
   \<and> length (between (disposeKeysForId (mem_provider {}) ''locker'' world1)) = 3
   \<and> staticTagMap (between (disposeKeysForId (mem_provider {}) ''locker'' world1) ! 2) ''locker''
        = Some [''abcdef'' \<mapsto> ''terces'']
   \<and> \<not> live (mem_provider {}) (getInternalId ''locker'')
        (keychain (between (disposeKeysForId (mem_provider {}) ''locker'' world1) ! 2))
   \<and> \<not> registry_backed (mem_provider {})
        (between (disposeKeysForId (mem_provider {}) ''locker'' world1) ! 2)"
proof -
  let ?w = "between (disposeKeysForId (mem_provider {}) ''locker'' world1) ! 2"
  have a: "staticTagMap ?w ''locker'' = Some [''abcdef'' \<mapsto> ''terces'']"
    by (simp add: disposeKeysForId_locker_world1) (simp add: world1_def)
  have b: "\<not> live (mem_provider {}) (getInternalId ''locker'') (keychain ?w)"
    by (simp add: disposeKeysForId_locker_world1 mem_provider_keys getInternalId_def)
  from a b have c: "\<not> registry_backed (mem_provider {}) ?w"
    unfolding registry_backed_def by (metis option.distinct(1))
  have d: "live (mem_provider {}) (getInternalId ''fresh'')
        (keychain (between (getMapForId (mem_provider {}) ''fresh'' world1) ! 3))"
    "staticTagMap (between (getMapForId (mem_provider {}) ''fresh'' world1) ! 3) ''fresh'' = None"
    by (simp_all add: getMapForId_fresh_world1 mem_provider_keys) (simp add: world1_def)
  show ?thesis
    using honours_contract_mem registry_backed_world1 a b c d
    by (simp add: getMapForId_fresh_world1 disposeKeysForId_locker_world1)
qed

end
